theory Spec2Isabelle
  imports Complex_Main "HOL-Library.Sublist" "HOL-Library.Log_Nat"
begin

section \<open>Strings\<close>

text \<open>
  A Python string is a sequence of code points. The model uses HOL's 8-bit characters and
  reads the character with number \<open>n\<close> as the code point \<open>n\<close>, so it covers the
  strings whose code points are below 256. On these, \<^verbatim>\<open>str.lower()\<close> maps
  \<^verbatim>\<open>A-Z\<close> and the accented capitals 192..222 (except the multiplication sign 215)
  to the letter 32 places further, and leaves every other character alone.
\<close>

definition lower_char :: "char \<Rightarrow> char" where
  "lower_char c =
     (let n = (of_char c :: nat)
      in if (65 \<le> n \<and> n \<le> 90) \<or> (192 \<le> n \<and> n \<le> 222 \<and> n \<noteq> 215)
         then char_of (n + 32) else c)"

definition lower :: "string \<Rightarrow> string" where
  "lower s = map lower_char s"

text \<open>\<^verbatim>\<open>sub in s\<close>: the substring test of Python, scanning \<open>s\<close> from the left.\<close>

fun contains :: "string \<Rightarrow> string \<Rightarrow> bool" where
  "contains [] sub = (sub = [])"
| "contains (c # cs) sub = (prefix sub (c # cs) \<or> contains cs sub)"

section \<open>The written-amount converter\<close>

text \<open>
  \<^verbatim>\<open>
  def text_amount_to_number(text_amount: str) -> int:
      text_amount = text_amount.lower()
      total = 0
      if "one million" in text_amount:
          total += 1_000_000
      if "two hundred thousand" in text_amount:
          total += 200_000
      return total
  \<close>
\<close>

definition text_amount_to_number :: "string \<Rightarrow> int" where
  "text_amount_to_number text_amount =
     (let text_amount = lower text_amount;
          total = 0;
          total = (if contains text_amount ''one million'' then total + 1000000 else total);
          total = (if contains text_amount ''two hundred thousand'' then total + 200000 else total)
      in total)"

text \<open>
  The converter as the specification words it: a fixed vocabulary of phrases with their
  values, and the sum of the values of the phrases found in the lowercased text.
\<close>

definition vocabulary :: "(string \<times> int) list" where
  "vocabulary = [(''one million'', 1000000), (''two hundred thousand'', 200000)]"

definition additive_converter :: "string \<Rightarrow> int" where
  "additive_converter s =
     sum_list (map snd (filter (\<lambda>pv. contains (lower s) (fst pv)) vocabulary))"

section \<open>Floating-point numbers\<close>

text \<open>
  A Python \<^verbatim>\<open>float\<close> is an IEEE 754 binary64 number. A finite float is modelled by
  the rational number it denotes (so the two zeros are one value, as they are for
  Python's \<^verbatim>\<open>==\<close>), next to the two infinities and NaN. Every operation computes the
  exact result and rounds it to the nearest float, ties to the even significand:
  a float is \<open>m * 2 ^ e\<close> with \<open>m < 2 ^ 53\<close> and \<open>- 1074 \<le> e\<close>, and a result that
  rounds to \<open>2 ^ 1024\<close> or more is an infinity.
\<close>

datatype pyfloat = Finite rat | PosInf | NegInf | NaN

text \<open>\<open>floor_log2 x\<close> is the integer \<open>k\<close> with \<open>2 ^ k \<le> x < 2 ^ (k + 1)\<close>, for \<open>0 < x\<close>.\<close>

definition floor_log2 :: "rat \<Rightarrow> int" where
  "floor_log2 x =
     (let (p, q) = quotient_of x;
          d = bitlen p - bitlen q
      in if q * 2 ^ nat d \<le> p * 2 ^ nat (- d) then d else d - 1)"

definition round_half_even :: "rat \<Rightarrow> int" where
  "round_half_even x =
     (let f = \<lfloor>x\<rfloor>; r = x - of_int f
      in if r < 1 / 2 then f
         else if 1 / 2 < r then f + 1
         else if even f then f else f + 1)"

definition round_double :: "rat \<Rightarrow> pyfloat" where
  "round_double x =
     (if x = 0 then Finite 0
      else let e = max (floor_log2 \<bar>x\<bar> - 52) (- 1074);
               m = round_half_even (\<bar>x\<bar> / 2 powi e);
               y = of_int m * 2 powi e
           in if 2 powi 1024 \<le> y then (if 0 < x then PosInf else NegInf)
              else Finite (sgn x * y))"

text \<open>\<^verbatim>\<open>a - b\<close>, \<^verbatim>\<open>a * b\<close> and \<^verbatim>\<open>abs(a)\<close> on floats.\<close>

fun fsub :: "pyfloat \<Rightarrow> pyfloat \<Rightarrow> pyfloat" where
  "fsub NaN _ = NaN"
| "fsub _ NaN = NaN"
| "fsub PosInf PosInf = NaN"
| "fsub NegInf NegInf = NaN"
| "fsub PosInf _ = PosInf"
| "fsub NegInf _ = NegInf"
| "fsub _ PosInf = NegInf"
| "fsub _ NegInf = PosInf"
| "fsub (Finite a) (Finite b) = round_double (a - b)"

fun fneg :: "pyfloat \<Rightarrow> pyfloat" where
  "fneg (Finite a) = Finite (- a)"
| "fneg PosInf = NegInf"
| "fneg NegInf = PosInf"
| "fneg NaN = NaN"

fun fmul :: "pyfloat \<Rightarrow> pyfloat \<Rightarrow> pyfloat" where
  "fmul NaN _ = NaN"
| "fmul _ NaN = NaN"
| "fmul (Finite a) (Finite b) = round_double (a * b)"
| "fmul (Finite a) y = (if a = 0 then NaN else if 0 < a then y else fneg y)"
| "fmul x (Finite b) = (if b = 0 then NaN else if 0 < b then x else fneg x)"
| "fmul PosInf y = y"
| "fmul NegInf y = fneg y"

fun fabs :: "pyfloat \<Rightarrow> pyfloat" where
  "fabs (Finite a) = Finite \<bar>a\<bar>"
| "fabs PosInf = PosInf"
| "fabs NegInf = PosInf"
| "fabs NaN = NaN"

text \<open>\<^verbatim>\<open>x > n\<close> for a float and an int: Python compares the two values exactly.\<close>

fun float_gt_int :: "pyfloat \<Rightarrow> int \<Rightarrow> bool" where
  "float_gt_int (Finite a) n = (of_int n < a)"
| "float_gt_int PosInf n = True"
| "float_gt_int NegInf n = False"
| "float_gt_int NaN n = False"

section \<open>Dates\<close>

text \<open>
  \<^verbatim>\<open>datetime.date\<close> and its subclass \<^verbatim>\<open>datetime.datetime\<close>. A naive datetime has
  no \<open>utcoffset\<close>; an aware one has the offset of its time zone from UTC, in seconds.
\<close>

record date =
  year :: nat
  month :: nat
  day :: nat

record datetime = date +
  hour :: nat
  minute :: nat
  second :: nat
  microsecond :: nat
  utcoffset :: "int option"

text \<open>\<^verbatim>\<open>dt.date()\<close>: the calendar date of a datetime.\<close>

definition date_of :: "datetime \<Rightarrow> date" where
  "date_of dt = \<lparr>year = year dt, month = month dt, day = day dt\<rparr>"

text \<open>\<^verbatim>\<open>datetime(y, m, d, h, mi)\<close>: a naive datetime on the minute.\<close>

definition naive_datetime :: "nat \<Rightarrow> nat \<Rightarrow> nat \<Rightarrow> nat \<Rightarrow> nat \<Rightarrow> datetime" where
  "naive_datetime y m d h mi =
     \<lparr>year = y, month = m, day = d, hour = h, minute = mi, second = 0, microsecond = 0,
      utcoffset = None\<rparr>"

section \<open>Errors\<close>

text \<open>
  The exceptions the program raises or lets through, with the values their messages
  carry. The specification's names for them: \<open>UnknownCounty\<close> is its NoMatchError,
  \<open>ParserError\<close> its DateParseError, \<open>InvalidDateOrder\<close> its DateOrderError,
  \<open>FloatValueError\<close> its MalformedAmountError and \<open>MoneyMismatch\<close> its
  MoneyMismatchError.
\<close>

datatype error =
    UnknownCounty string
      \<comment> \<open>\<^verbatim>\<open>ValueError("Unknown county: ...")\<close>, with the input\<close>
  | UnpackNone
      \<comment> \<open>\<^verbatim>\<open>TypeError\<close>: unpacking the \<^verbatim>\<open>None\<close> that \<^verbatim>\<open>extractOne\<close> returned\<close>
  | StopIteration
      \<comment> \<open>\<^verbatim>\<open>next()\<close> on a generator with no element\<close>
  | ParserError string
      \<comment> \<open>raised by \<^verbatim>\<open>dateutil.parser.parse\<close>, with the string\<close>
  | NaiveAwareCompare
      \<comment> \<open>\<^verbatim>\<open>TypeError\<close>: comparing a naive datetime with an aware one\<close>
  | InvalidDateOrder date date
      \<comment> \<open>\<^verbatim>\<open>ValueError("INVALID DATE ORDER: Recorded ... before Signed ...")\<close>,
          with the recorded date and the signed date\<close>
  | FloatValueError string
      \<comment> \<open>\<^verbatim>\<open>ValueError\<close> of \<^verbatim>\<open>float()\<close>: the string is not a number\<close>
  | OverflowError
      \<comment> \<open>an int too large to convert to float\<close>
  | MoneyMismatch pyfloat int
      \<comment> \<open>\<^verbatim>\<open>ValueError("MONEY MISMATCH: Numeric=... vs Text=...")\<close>\<close>

section \<open>County normalization\<close>

text \<open>
  The registry that \<^verbatim>\<open>load_counties\<close> reads from \<^verbatim>\<open>counties.json\<close>: a list of
  records with a name (a string) and a tax rate (a number with a fraction, which JSON
  reads as a float).
\<close>

record county_record =
  name :: string
  tax_rate :: pyfloat

text \<open>
  \<^verbatim>\<open>process.extractOne(query, choices)\<close> of the fuzzy-matching library scores every
  choice against the query and returns the best one with its score and its index, the
  first one among equals, or \<^verbatim>\<open>None\<close> when there is no choice. The scoring function
  of the library (a similarity between 0 and 100) is a parameter of the model.
\<close>

type_synonym scorer = "string \<Rightarrow> string \<Rightarrow> real"

fun extract_loop ::
  "scorer \<Rightarrow> string \<Rightarrow> (string \<times> real \<times> nat) option \<Rightarrow> nat \<Rightarrow> string list
     \<Rightarrow> (string \<times> real \<times> nat) option" where
  "extract_loop scorer query result i [] = result"
| "extract_loop scorer query result i (choice # choices) =
     (let score = scorer query choice;
          result' = (case result of
                       None \<Rightarrow> Some (choice, score, i)
                     | Some (_, result_score, _) \<Rightarrow>
                         if result_score < score then Some (choice, score, i) else result)
      in extract_loop scorer query result' (i + 1) choices)"

definition extractOne :: "scorer \<Rightarrow> string \<Rightarrow> string list \<Rightarrow> (string \<times> real \<times> nat) option" where
  "extractOne scorer query choices = extract_loop scorer query None 0 choices"

text \<open>
  \<^verbatim>\<open>
  def normalize_county(input_county: str, counties):
      names = [c["name"] for c in counties]
      best_match, score, _ = process.extractOne(input_county, names)
      if score < 70:
          raise ValueError(f"Unknown county: {input_county}")
      return best_match
  \<close>
\<close>

definition normalize_county :: "scorer \<Rightarrow> string \<Rightarrow> county_record list \<Rightarrow> error + string" where
  "normalize_county scorer input_county counties =
     (let names = map name counties
      in case extractOne scorer input_county names of
           None \<Rightarrow> Inl UnpackNone
         | Some (best_match, score, _) \<Rightarrow>
             if score < 70 then Inl (UnknownCounty input_county) else Inr best_match)"

section \<open>Sanity checks\<close>

subsection \<open>Comparing datetimes\<close>

text \<open>
  \<^verbatim>\<open>a < b\<close> on datetimes, as \<^verbatim>\<open>datetime._cmp\<close> does it: two datetimes with the same
  offset (or both naive) are compared field by field; a naive and an aware one cannot
  be compared; two aware ones with different offsets are compared as instants, through
  the ordinal of the day. The month of a datetime is between 1 and 12, which is where
  the table of \<open>days_before_month\<close> is read.
\<close>

fun lex_less :: "nat list \<Rightarrow> nat list \<Rightarrow> bool" where
  "lex_less [] [] = False"
| "lex_less [] (y # ys) = True"
| "lex_less (x # xs) [] = False"
| "lex_less (x # xs) (y # ys) = (x < y \<or> (x = y \<and> lex_less xs ys))"

definition datetime_fields :: "datetime \<Rightarrow> nat list" where
  "datetime_fields dt = [year dt, month dt, day dt, hour dt, minute dt, second dt, microsecond dt]"

definition is_leap :: "nat \<Rightarrow> bool" where
  "is_leap y = (y mod 4 = 0 \<and> (y mod 100 \<noteq> 0 \<or> y mod 400 = 0))"

definition days_before_year :: "nat \<Rightarrow> int" where
  "days_before_year y' =
     (let y = int y' - 1 in y * 365 + y div 4 - y div 100 + y div 400)"

definition days_before_month :: "nat \<Rightarrow> nat \<Rightarrow> int" where
  "days_before_month y m =
     ([- 1, 0, 31, 59, 90, 120, 151, 181, 212, 243, 273, 304, 334] ! m)
     + (if 2 < m \<and> is_leap y then 1 else 0)"

definition toordinal :: "datetime \<Rightarrow> int" where
  "toordinal dt = days_before_year (year dt) + days_before_month (year dt) (month dt) + int (day dt)"

definition utc_microseconds :: "datetime \<Rightarrow> int \<Rightarrow> int" where
  "utc_microseconds dt off =
     ((toordinal dt * 86400
       + int (hour dt) * 3600 + int (minute dt) * 60 + int (second dt) - off) * 1000000)
     + int (microsecond dt)"

definition datetime_less :: "datetime \<Rightarrow> datetime \<Rightarrow> error + bool" where
  "datetime_less a b =
     (if utcoffset a = utcoffset b then Inr (lex_less (datetime_fields a) (datetime_fields b))
      else case (utcoffset a, utcoffset b) of
             (Some myoff, Some otoff) \<Rightarrow>
               Inr (utc_microseconds a myoff < utc_microseconds b otoff)
           | _ \<Rightarrow> Inl NaiveAwareCompare)"

subsection \<open>Date order\<close>

text \<open>
  \<^verbatim>\<open>
  def validate_dates(date_signed: str, date_recorded: str):
      signed = date_parser.parse(date_signed)
      recorded = date_parser.parse(date_recorded)
      if recorded < signed:
          raise ValueError(
              f"INVALID DATE ORDER: Recorded {recorded.date()} "
              f"before Signed {signed.date()}"
          )
  \<close>
  The date parser of the library is a parameter: a partial function from strings to
  datetimes, undefined where the library raises its \<^verbatim>\<open>ParserError\<close>.
\<close>

type_synonym date_parser = "string \<rightharpoonup> datetime"

definition validate_dates :: "date_parser \<Rightarrow> string \<Rightarrow> string \<Rightarrow> error + unit" where
  "validate_dates parse date_signed date_recorded =
     (case parse date_signed of
        None \<Rightarrow> Inl (ParserError date_signed)
      | Some signed \<Rightarrow>
     (case parse date_recorded of
        None \<Rightarrow> Inl (ParserError date_recorded)
      | Some recorded \<Rightarrow>
     (case datetime_less recorded signed of
        Inl e \<Rightarrow> Inl e
      | Inr before \<Rightarrow>
          if before then Inl (InvalidDateOrder (date_of recorded) (date_of signed))
          else Inr ())))"

subsection \<open>Reading the numeric amount\<close>

text \<open>
  \<^verbatim>\<open>re.sub(r"[^\d.]", "", amount_numeric)\<close> keeps the digits and the points. Among the
  code points below 256 the digits of \<^verbatim>\<open>\d\<close> are \<^verbatim>\<open>0-9\<close>.
\<close>

definition is_digit :: "char \<Rightarrow> bool" where
  "is_digit c = (48 \<le> (of_char c :: nat) \<and> (of_char c :: nat) \<le> 57)"

definition strip_amount :: "string \<Rightarrow> string" where
  "strip_amount amount_numeric = filter (\<lambda>c. is_digit c \<or> c = CHR ''.'') amount_numeric"

definition digit_value :: "char \<Rightarrow> nat" where
  "digit_value c = of_char c - 48"

definition decimal_value :: "string \<Rightarrow> nat" where
  "decimal_value ds = foldl (\<lambda>acc c. 10 * acc + digit_value c) 0 ds"

text \<open>
  \<^verbatim>\<open>float(s)\<close> on a string of digits and points, the only strings the program gives
  it: digits, then optionally a point and digits, with a digit somewhere. The value is
  the decimal number, rounded to the nearest float. Anything else raises \<^verbatim>\<open>ValueError\<close>.
\<close>

definition py_float :: "string \<Rightarrow> error + pyfloat" where
  "py_float s =
     (let ip = takeWhile is_digit s; rest = dropWhile is_digit s
      in case rest of
           [] \<Rightarrow> if ip = [] then Inl (FloatValueError s)
                 else Inr (round_double (of_nat (decimal_value ip)))
         | c # fp \<Rightarrow>
             if c = CHR ''.'' \<and> list_all is_digit fp \<and> (ip \<noteq> [] \<or> fp \<noteq> [])
             then Inr (round_double
                        (of_nat (decimal_value ip) + of_nat (decimal_value fp) / 10 ^ length fp))
             else Inl (FloatValueError s))"

text \<open>An int in float arithmetic is converted to the nearest float; too large an int raises.\<close>

definition int_to_float :: "int \<Rightarrow> error + pyfloat" where
  "int_to_float n =
     (case round_double (of_int n) of
        Finite a \<Rightarrow> Inr (Finite a)
      | _ \<Rightarrow> Inl OverflowError)"

subsection \<open>The date parser on ISO dates\<close>

text \<open>
  Modelled from the spec: the date parser is the \<^verbatim>\<open>dateutil\<close> library, which is not part
  of the source. The specification asks of it that it handles at least ISO YYYY-MM-DD
  and parses a string into a calendar date. \<open>date_parse\<close> is a parser that does so:
  an ISO date parses to that date, and any other string is left to \<open>other\<close>, the
  library on its other formats.
\<close>

text \<open>\<^verbatim>\<open>datetime\<close> accepts the years 1 to 9999 and the days of the month's length.\<close>

definition days_in_month :: "nat \<Rightarrow> nat \<Rightarrow> nat" where
  "days_in_month y m =
     (if m = 2 \<and> is_leap y then 29
      else [0, 31, 28, 31, 30, 31, 30, 31, 31, 30, 31, 30, 31] ! m)"

definition valid_date :: "nat \<Rightarrow> nat \<Rightarrow> nat \<Rightarrow> bool" where
  "valid_date y m d =
     (1 \<le> y \<and> y \<le> 9999 \<and> 1 \<le> m \<and> m \<le> 12 \<and> 1 \<le> d \<and> d \<le> days_in_month y m)"

text \<open>
  The ISO part of the parser: four digits, a hyphen, two digits, a hyphen and two digits
  that make a date parse to midnight of that date, with no time zone.
\<close>

definition iso_date :: "string \<Rightarrow> datetime option" where
  "iso_date s =
     (if length s = 10 \<and> s ! 4 = CHR ''-'' \<and> s ! 7 = CHR ''-''
         \<and> list_all is_digit (take 4 s) \<and> list_all is_digit (take 2 (drop 5 s))
         \<and> list_all is_digit (drop 8 s)
      then let y = decimal_value (take 4 s);
               m = decimal_value (take 2 (drop 5 s));
               d = decimal_value (drop 8 s)
           in if valid_date y m d then Some (naive_datetime y m d 0 0) else None
      else None)"

definition date_parse :: "date_parser \<Rightarrow> date_parser" where
  "date_parse other s = (case iso_date s of Some dt \<Rightarrow> Some dt | None \<Rightarrow> other s)"

text \<open>\<^verbatim>\<open>date.isoformat()\<close>: the date as YYYY-MM-DD, each part padded with zeros.\<close>

definition digit_char :: "nat \<Rightarrow> char" where
  "digit_char k = char_of (48 + k)"

definition isoformat :: "date \<Rightarrow> string" where
  "isoformat dt =
     [digit_char (year dt div 1000), digit_char (year dt div 100 mod 10),
      digit_char (year dt div 10 mod 10), digit_char (year dt mod 10)]
     @ ''-'' @ [digit_char (month dt div 10), digit_char (month dt mod 10)]
     @ ''-'' @ [digit_char (day dt div 10), digit_char (day dt mod 10)]"

subsection \<open>Money\<close>

text \<open>
  \<^verbatim>\<open>
  def validate_money(amount_numeric: str, amount_text: str):
      numeric_value = float(re.sub(r"[^\d.]", "", amount_numeric))
      text_value = text_amount_to_number(amount_text)
      if abs(numeric_value - text_value) > 1:
          raise ValueError(
              f"MONEY MISMATCH: Numeric={numeric_value} vs Text={text_value}"
          )
  \<close>
\<close>

definition validate_money :: "string \<Rightarrow> string \<Rightarrow> error + unit" where
  "validate_money amount_numeric amount_text =
     (case py_float (strip_amount amount_numeric) of
        Inl e \<Rightarrow> Inl e
      | Inr numeric_value \<Rightarrow>
     (let text_value = text_amount_to_number amount_text
      in case int_to_float text_value of
           Inl e \<Rightarrow> Inl e
         | Inr text_float \<Rightarrow>
             if float_gt_int (fabs (fsub numeric_value text_float)) 1
             then Inl (MoneyMismatch numeric_value text_value)
             else Inr ()))"

section \<open>Closing cost calculation\<close>

text \<open>
  \<^verbatim>\<open>
  def calculate_tax(amount_numeric: str, tax_rate: float):
      numeric_value = float(re.sub(r"[^\d.]", "", amount_numeric))
      return numeric_value * tax_rate
  \<close>
\<close>

definition calculate_tax :: "string \<Rightarrow> pyfloat \<Rightarrow> error + pyfloat" where
  "calculate_tax amount_numeric rate =
     (case py_float (strip_amount amount_numeric) of
        Inl e \<Rightarrow> Inl e
      | Inr numeric_value \<Rightarrow> Inr (fmul numeric_value rate))"

section \<open>Orchestration\<close>

text \<open>
  \<^verbatim>\<open>
  def process_deed():
      data = extract_with_llm(RAW_DEED_TEXT)
      counties = load_counties()
      normalized_county = normalize_county(data["county"], counties)
      tax_rate = next(
          c["tax_rate"] for c in counties if c["name"] == normalized_county
      )
      validate_dates(data["date_signed"], data["date_recorded"])
      validate_money(data["amount_numeric"], data["amount_text"])
      tax_due = calculate_tax(data["amount_numeric"], tax_rate)
      print(f"Normalized County: {normalized_county}")
      print(f"Tax Rate: {tax_rate}")
      print(f"Closing Tax Due: ${tax_due:,.2f}")
  \<close>
  The extraction of the fields from the raw text and the loading of the registry are
  outside the model: \<open>process_deed\<close> takes the extracted fields and the registry, and
  returns the three values the program prints.
\<close>

record deed_fields =
  doc_id :: string
  county :: string
  state :: string
  date_signed :: string
  date_recorded :: string
  grantor :: string
  grantee :: string
  amount_numeric :: string
  amount_text :: string
  apn :: string
  status :: string

record deed_result =
  normalized_county :: string
  county_tax_rate :: pyfloat
  tax_due :: pyfloat

definition process_deed ::
  "scorer \<Rightarrow> date_parser \<Rightarrow> deed_fields \<Rightarrow> county_record list \<Rightarrow> error + deed_result" where
  "process_deed scorer parse data counties =
     (case normalize_county scorer (county data) counties of
        Inl e \<Rightarrow> Inl e
      | Inr nc \<Rightarrow>
     (case find (\<lambda>c. name c = nc) counties of
        None \<Rightarrow> Inl StopIteration
      | Some c \<Rightarrow>
     (case validate_dates parse (date_signed data) (date_recorded data) of
        Inl e \<Rightarrow> Inl e
      | Inr _ \<Rightarrow>
     (case validate_money (amount_numeric data) (amount_text data) of
        Inl e \<Rightarrow> Inl e
      | Inr _ \<Rightarrow>
     (case calculate_tax (amount_numeric data) (tax_rate c) of
        Inl e \<Rightarrow> Inl e
      | Inr due \<Rightarrow>
          Inr \<lparr>normalized_county = nc, county_tax_rate = tax_rate c, tax_due = due\<rparr>)))))"

section \<open>Sample data\<close>

text \<open>
  A registry and a scoring function for the examples: the scoring function gives 100 to
  equal strings and 0 to different ones. \<open>one_percent\<close> is the float that the literal
  \<^verbatim>\<open>0.01\<close> denotes, the float nearest to 1/100.
\<close>

definition one_percent :: pyfloat where
  "one_percent = Finite (5764607523034235 / 2 ^ 59)"

definition exact_scorer :: scorer where
  "exact_scorer a b = (if a = b then 100 else 0)"


definition sample_counties :: "county_record list" where
  "sample_counties =
     [\<lparr>name = ''Santa Clara'', tax_rate = one_percent\<rparr>,
      \<lparr>name = ''San Mateo'', tax_rate = Finite (1 / 64)\<rparr>]"

text \<open>
  What the date parser returns on the strings of the examples: a date alone parses to
  midnight of that day, and none of the datetimes has a time zone. The examples take
  two strings as unparseable, the empty string and \<^verbatim>\<open>not a date\<close>, which the library
  rejects; the table stands for the library on no other string.
\<close>

definition sample_parse :: date_parser where
  "sample_parse =
     [''2024-01-10'' \<mapsto> naive_datetime 2024 1 10 0 0,
      ''2024-01-15'' \<mapsto> naive_datetime 2024 1 15 0 0,
      ''2024-01-15 09:00'' \<mapsto> naive_datetime 2024 1 15 9 0,
      ''2024-01-15 10:00'' \<mapsto> naive_datetime 2024 1 15 10 0]"

text \<open>
  The fields of a deed that passes every check. (The deed in the source is made to fail:
  it is recorded before it is signed and its two amounts differ.)
\<close>

definition sample_deed :: deed_fields where
  "sample_deed =
     \<lparr>doc_id = ''DEED-TRUST-0042'', county = ''Santa Clara'', state = ''CA'',
      date_signed = ''2024-01-10'', date_recorded = ''2024-01-15'',
      grantor = ''T.E.S.L.A. Holdings LLC'', grantee = ''John & Sarah Connor'',
      amount_numeric = ''$1,200,000.00'',
      amount_text = ''One Million Two Hundred Thousand Dollars'',
      apn = ''992-001-XA'', status = ''PRELIMINARY''\<rparr>"

section \<open>Properties of strings\<close>

lemma contains_iff: "contains s sub \<longleftrightarrow> (\<exists>xs ys. s = xs @ sub @ ys)"
proof (induction s)
  case Nil
  show ?case by auto
next
  case (Cons c cs)
  show ?case
  proof
    assume "contains (c # cs) sub"
    then consider "prefix sub (c # cs)" | "contains cs sub" by auto
    then show "\<exists>xs ys. c # cs = xs @ sub @ ys"
    proof cases
      case 1
      then obtain ys where "c # cs = sub @ ys" by (auto simp: prefix_def)
      then have "c # cs = [] @ sub @ ys" by simp
      then show ?thesis by blast
    next
      case 2
      with Cons.IH obtain xs ys where "cs = xs @ sub @ ys" by blast
      then have "c # cs = (c # xs) @ sub @ ys" by simp
      then show ?thesis by blast
    qed
  next
    assume "\<exists>xs ys. c # cs = xs @ sub @ ys"
    then obtain xs ys where e: "c # cs = xs @ sub @ ys" by blast
    show "contains (c # cs) sub"
    proof (cases xs)
      case Nil
      with e have "prefix sub (c # cs)" by (simp add: prefix_def)
      then show ?thesis by simp
    next
      case (Cons x xs')
      with e have "cs = xs' @ sub @ ys" by simp
      with Cons.IH have "contains cs sub" by blast
      then show ?thesis by simp
    qed
  qed
qed

lemma lower_char_idem: "lower_char (lower_char c) = lower_char c"
proof -
  have b: "(of_char c :: nat) < 256" by simp
  show ?thesis
    using b unfolding lower_char_def Let_def
    by auto
qed

lemma lower_idem: "lower (lower s) = lower s"
  by (simp add: lower_def lower_char_idem)

section \<open>Properties of floating-point rounding\<close>

lemma pow2_pos: "0 < (2::rat) powi k"
  by simp

lemma pow2_add: "(2::rat) powi (a + b) = 2 powi a * 2 powi b"
  by (simp add: power_int_add)

lemma pow2_diff: "(2::rat) powi (a - b) = 2 powi a / 2 powi b"
  by (simp add: power_int_diff)

lemma pow2_mono: "a \<le> b \<Longrightarrow> (2::rat) powi a \<le> 2 powi b"
  by (simp add: power_int_increasing)

lemma pow2_strict_mono: "a < b \<Longrightarrow> (2::rat) powi a < 2 powi b"
  by (simp add: power_int_strict_increasing)

lemma bitlen_bounds_rat:
  assumes "0 < p"
  shows "(2::rat) powi (bitlen p - 1) \<le> of_int p" and "of_int p < (2::rat) powi bitlen p"
proof -
  from bitlen_bounds [OF assms]
  have 1: "2 ^ nat (bitlen p - 1) \<le> p" and 2: "p < 2 ^ nat (bitlen p)" by simp_all
  have b: "1 \<le> bitlen p" using assms by (simp add: bitlen_alt_def)
  have "(of_int (2 ^ nat (bitlen p - 1)) :: rat) \<le> of_int p"
    using 1 by (simp only: of_int_le_iff)
  then show "(2::rat) powi (bitlen p - 1) \<le> of_int p"
    using b by (simp add: power_int_nonneg_exp)
  have "(of_int p :: rat) < of_int (2 ^ nat (bitlen p))"
    using 2 by (simp only: of_int_less_iff)
  then show "of_int p < (2::rat) powi bitlen p"
    using b by (simp add: power_int_nonneg_exp)
qed

lemma floor_log2_bounds:
  assumes "0 < x"
  shows "2 powi floor_log2 x \<le> x" and "x < 2 powi (floor_log2 x + 1)"
proof -
  obtain p q where pq: "quotient_of x = (p, q)" by (cases "quotient_of x")
  then have q: "0 < q" and x: "x = of_int p / of_int q"
    by (simp_all add: quotient_of_denom_pos quotient_of_div)
  from assms q x have p: "0 < p" by (simp add: zero_less_divide_iff)
  define d where "d = bitlen p - bitlen q"
  have qr: "0 < (of_int q :: rat)" using q by simp
  have up: "x < 2 powi (d + 1)"
  proof -
    have "of_int p < (2::rat) powi bitlen p" by (rule bitlen_bounds_rat [OF p])
    also have "\<dots> = 2 powi (d + 1) * 2 powi (bitlen q - 1)"
      by (simp add: d_def pow2_add [symmetric])
    also have "\<dots> \<le> 2 powi (d + 1) * of_int q"
      using bitlen_bounds_rat(1) [OF q] by (simp add: mult_left_mono)
    finally show ?thesis using qr by (simp add: x pos_divide_less_eq)
  qed
  have lo: "2 powi (d - 1) \<le> x"
  proof -
    have "2 powi (d - 1) * of_int q \<le> 2 powi (d - 1) * (2::rat) powi bitlen q"
      using bitlen_bounds_rat(2) [OF q] by (simp add: mult_left_mono)
    also have "\<dots> = 2 powi (bitlen p - 1)"
      by (simp add: d_def pow2_add [symmetric])
    also have "\<dots> \<le> of_int p" by (rule bitlen_bounds_rat [OF p])
    finally show ?thesis using qr by (simp add: x pos_le_divide_eq)
  qed
  have c: "(q * 2 ^ nat d \<le> p * 2 ^ nat (- d)) \<longleftrightarrow> 2 powi d \<le> x"
  proof (cases "0 \<le> d")
    case True
    then have "(q * 2 ^ nat d \<le> p * 2 ^ nat (- d)) \<longleftrightarrow> q * 2 ^ nat d \<le> p" by simp
    also have "\<dots> \<longleftrightarrow> (of_int (q * 2 ^ nat d) :: rat) \<le> of_int p" by (simp only: of_int_le_iff)
    also have "\<dots> \<longleftrightarrow> 2 powi d * of_int q \<le> (of_int p :: rat)"
      using True by (simp add: power_int_nonneg_exp mult.commute)
    also have "\<dots> \<longleftrightarrow> 2 powi d \<le> x" using qr by (simp add: x pos_le_divide_eq)
    finally show ?thesis .
  next
    case False
    then have "(q * 2 ^ nat d \<le> p * 2 ^ nat (- d)) \<longleftrightarrow> q \<le> p * 2 ^ nat (- d)" by simp
    also have "\<dots> \<longleftrightarrow> (of_int q :: rat) \<le> of_int (p * 2 ^ nat (- d))" by (simp only: of_int_le_iff)
    also have "\<dots> \<longleftrightarrow> (of_int q :: rat) \<le> of_int p * 2 powi (- d)"
      using False by (simp add: power_int_nonneg_exp)
    also have "\<dots> \<longleftrightarrow> 2 powi d * of_int q \<le> (of_int p :: rat)"
      by (simp add: power_int_minus field_simps)
    also have "\<dots> \<longleftrightarrow> 2 powi d \<le> x" using qr by (simp add: x pos_le_divide_eq)
    finally show ?thesis .
  qed
  have f: "floor_log2 x = (if 2 powi d \<le> x then d else d - 1)"
    using c by (simp add: floor_log2_def pq d_def Let_def)
  show "2 powi floor_log2 x \<le> x" using f lo by simp
  show "x < 2 powi (floor_log2 x + 1)" using f up by (simp add: not_le)
qed

lemma floor_log2_unique:
  assumes "0 < x" "2 powi k \<le> x" "x < 2 powi (k + 1)"
  shows "floor_log2 x = k"
proof -
  from floor_log2_bounds [OF assms(1)]
  have a: "2 powi floor_log2 x \<le> x" and b: "x < 2 powi (floor_log2 x + 1)" by simp_all
  have "2 powi floor_log2 x < (2::rat) powi (k + 1)" using a assms(3) by simp
  then have 1: "floor_log2 x < k + 1"
    by (metis not_le pow2_mono)
  have "2 powi k < (2::rat) powi (floor_log2 x + 1)" using b assms(2) by simp
  then have 2: "k < floor_log2 x + 1"
    by (metis not_le pow2_mono)
  from 1 2 show ?thesis by simp
qed

lemma round_half_even_lower: "\<lfloor>x\<rfloor> \<le> round_half_even x"
  by (simp add: round_half_even_def Let_def)

lemma round_half_even_upper: "round_half_even x \<le> \<lfloor>x\<rfloor> + 1"
  by (simp add: round_half_even_def Let_def)

lemma round_half_even_le:
  assumes "x \<le> of_int n"
  shows "round_half_even x \<le> n"
proof (cases "x = of_int n")
  case True
  then show ?thesis by (simp add: round_half_even_def)
next
  case False
  with assms have "x < of_int n" by simp
  then have "\<lfloor>x\<rfloor> < n" by (simp add: floor_less_iff)
  with round_half_even_upper [of x] show ?thesis by simp
qed

lemma round_half_even_ge:
  assumes "of_int n \<le> x"
  shows "n \<le> round_half_even x"
proof -
  from assms have "n \<le> \<lfloor>x\<rfloor>" by (simp add: le_floor_iff)
  with round_half_even_lower [of x] show ?thesis by simp
qed

lemma round_half_even_of_int: "round_half_even (of_int n) = n"
  by (simp add: round_half_even_def)

lemma round_half_even_near:
  assumes "\<bar>x - of_int m\<bar> < 1 / 2"
  shows "round_half_even x = m"
proof (cases "of_int m \<le> x")
  case True
  with assms have "x < of_int m + 1 / 2" by simp
  with True have f: "\<lfloor>x\<rfloor> = m" by (simp add: floor_unique)
  with assms True show ?thesis by (simp add: round_half_even_def Let_def)
next
  case False
  with assms have b: "of_int (m - 1) + 1 / 2 < x" "x < of_int m" by simp_all
  then have f: "\<lfloor>x\<rfloor> = m - 1" by (intro floor_unique) simp_all
  with b show ?thesis by (simp add: round_half_even_def Let_def)
qed

lemma round_double_unfold:
  assumes "x \<noteq> 0"
  shows "round_double x =
     (if (2::rat) powi 1024 \<le>
           of_int (round_half_even (\<bar>x\<bar> / 2 powi max (floor_log2 \<bar>x\<bar> - 52) (- 1074)))
             * 2 powi max (floor_log2 \<bar>x\<bar> - 52) (- 1074)
      then (if 0 < x then PosInf else NegInf)
      else Finite (sgn x *
             (of_int (round_half_even (\<bar>x\<bar> / 2 powi max (floor_log2 \<bar>x\<bar> - 52) (- 1074)))
               * 2 powi max (floor_log2 \<bar>x\<bar> - 52) (- 1074))))"
  unfolding round_double_def Let_def using assms by (simp only: if_False)

lemma round_half_even_nonneg: "0 \<le> x \<Longrightarrow> 0 \<le> round_half_even x"
  using round_half_even_ge [of 0 x] by simp

lemma round_double_eqI:
  assumes "0 < x" "- 1074 \<le> e" "2 powi (e + 52) \<le> x" "x < 2 powi (e + 53)"
    and "\<bar>x / 2 powi e - of_int m\<bar> < 1 / 2"
    and "of_int m * 2 powi e < (2::rat) powi 1024"
  shows "round_double x = Finite (of_int m * 2 powi e)"
proof -
  have "x < 2 powi (e + 52 + 1)" using assms(4) by (simp add: add.commute add.left_commute)
  with assms have k: "floor_log2 x = e + 52" by (intro floor_log2_unique) simp_all
  have a: "\<bar>x\<bar> = x" using assms(1) by simp
  have e: "max (floor_log2 \<bar>x\<bar> - 52) (- 1074) = e" using assms(2) by (simp add: a k)
  have m: "round_half_even (\<bar>x\<bar> / 2 powi e) = m"
    using assms(5) by (simp add: a round_half_even_near)
  have "x \<noteq> 0" using assms(1) by simp
  have nov: "\<not> (2::rat) powi 1024 \<le> of_int m * 2 powi e"
    using assms(6) by (simp only: not_le)
  have sg: "sgn x = 1" using assms(1) by simp
  from round_double_unfold [OF \<open>x \<noteq> 0\<close>] show ?thesis
    by (simp only: e m nov sg if_False mult_1)
qed

lemma round_double_exact:
  assumes "x = of_int m * 2 powi e" "\<bar>m\<bar> < 2 ^ 53" "- 1074 \<le> e" "e \<le> 971"
  shows "round_double x = Finite x"
proof (cases "x = 0")
  case True
  then show ?thesis by (simp add: round_double_def)
next
  case False
  define a where "a = \<bar>x\<bar>"
  define k where "k = floor_log2 a"
  define e' where "e' = max (k - 52) (- 1074)"
  have a: "a = of_int \<bar>m\<bar> * 2 powi e" by (simp add: a_def assms(1) abs_mult)
  have apos: "0 < a" using False by (simp add: a_def)
  have "of_int \<bar>m\<bar> < (2::rat) ^ 53"
    using assms(2) by (metis of_int_less_iff of_int_numeral of_int_power)
  then have "a < 2 ^ 53 * 2 powi e" by (simp add: a)
  also have "\<dots> = 2 powi (53 + e)" by (simp add: power_int_add)
  finally have ub: "a < 2 powi (53 + e)" .
  have "2 powi k \<le> a" unfolding k_def by (rule floor_log2_bounds [OF apos])
  with ub have "(2::rat) powi k < 2 powi (53 + e)" by simp
  then have "k < 53 + e" by (metis not_le pow2_mono)
  then have le: "e' \<le> e" using assms(3) by (simp add: e'_def)
  have "a / 2 powi e' = of_int \<bar>m\<bar> * 2 powi (e - e')"
    by (simp add: a power_int_diff)
  also have "\<dots> = of_int (\<bar>m\<bar> * 2 ^ nat (e - e'))"
    using le by (simp add: power_int_nonneg_exp)
  finally have q: "a / 2 powi e' = of_int (\<bar>m\<bar> * 2 ^ nat (e - e'))" .
  have r: "of_int (round_half_even (a / 2 powi e')) * 2 powi e' = a"
  proof -
    have "of_int (round_half_even (a / 2 powi e')) * 2 powi e' = a / 2 powi e' * 2 powi e'"
      by (simp only: q round_half_even_of_int)
    then show ?thesis by simp
  qed
  have "2 powi (53 + e) \<le> (2::rat) powi 1024" using assms(4) by (intro pow2_mono) simp
  with ub have nov: "\<not> (2::rat) powi 1024 \<le> a" by simp
  have sg: "sgn x * a = x" by (simp add: a_def sgn_mult_abs)
  have "round_double x =
     (if (2::rat) powi 1024 \<le> of_int (round_half_even (a / 2 powi e')) * 2 powi e'
      then (if 0 < x then PosInf else NegInf)
      else Finite (sgn x * (of_int (round_half_even (a / 2 powi e')) * 2 powi e')))"
    using round_double_unfold [OF False] by (simp only: a_def k_def e'_def)
  then show ?thesis by (simp only: r nov sg if_False)
qed

lemma round_double_of_int:
  assumes "\<bar>n\<bar> < 2 ^ 53"
  shows "round_double (of_int n) = Finite (of_int n)"
  using round_double_exact [of "of_int n" n 0] assms by simp

lemma double_one_hundredth: "round_double (1 / 100) = Finite (5764607523034235 / 2 ^ 59)"
  using round_double_eqI [of "1 / 100" "- 59" 5764607523034235]
  by (simp add: power_int_minus_divide)

lemma double_tax_example:
  "round_double (1250000 * (5764607523034235 / 2 ^ 59)) = Finite 12500"
  using round_double_eqI [of "1250000 * (5764607523034235 / 2 ^ 59)" "- 39" 6871947673600000]
  by (simp add: power_int_minus_divide)

lemma round_double_le_1:
  assumes "\<bar>x\<bar> \<le> 1"
  shows "\<exists>y. round_double x = Finite y \<and> \<bar>y\<bar> \<le> 1"
proof (cases "x = 0")
  case True
  then show ?thesis by (simp add: round_double_def)
next
  case False
  define a where "a = \<bar>x\<bar>"
  define e where "e = max (floor_log2 a - 52) (- 1074)"
  define m where "m = round_half_even (a / 2 powi e)"
  have apos: "0 < a" using False by (simp add: a_def)
  have a1: "a \<le> 1" using assms by (simp add: a_def)
  have "2 powi floor_log2 a \<le> a" by (rule floor_log2_bounds [OF apos])
  with a1 have "(2::rat) powi floor_log2 a < 2 powi 1" by simp
  then have "floor_log2 a < 1" by (metis not_le pow2_mono)
  then have e0: "e \<le> 0" by (simp add: e_def)
  have "a / 2 powi e \<le> 1 / 2 powi e" using a1 by (simp add: divide_right_mono)
  also have "\<dots> = 2 powi (- e)" by (simp add: power_int_minus_divide)
  also have "\<dots> = of_int (2 ^ nat (- e))" using e0 by (simp add: power_int_nonneg_exp)
  finally have "m \<le> 2 ^ nat (- e)" unfolding m_def by (rule round_half_even_le)
  then have "(of_int m :: rat) \<le> of_int (2 ^ nat (- e))" by (simp only: of_int_le_iff)
  also have "\<dots> = 2 powi (- e)" using e0 by (simp add: power_int_nonneg_exp)
  finally have "of_int m * 2 powi e \<le> 2 powi (- e) * (2::rat) powi e"
    by (simp add: mult_right_mono)
  also have "\<dots> = 1" by (simp add: power_int_minus)
  finally have y1: "of_int m * 2 powi e \<le> (1::rat)" .
  have m0: "0 \<le> m" unfolding m_def using apos by (intro round_half_even_nonneg) simp
  then have y0: "0 \<le> of_int m * (2::rat) powi e" by simp
  have "(1::rat) < 2 powi 1024" using pow2_strict_mono [of 0 1024] by (simp del: power_int_numeral)
  with y1 have nov: "\<not> (2::rat) powi 1024 \<le> of_int m * 2 powi e" by simp
  have "round_double x = Finite (sgn x * (of_int m * 2 powi e))"
    using round_double_unfold [OF False] nov
    by (simp only: a_def [symmetric] e_def [symmetric] m_def [symmetric] if_False)
  moreover have "\<bar>sgn x * (of_int m * 2 powi e)\<bar> \<le> 1"
    using y0 y1 False by (simp add: abs_mult)
  ultimately show ?thesis by blast
qed

lemma round_double_ge_2:
  assumes "2 \<le> \<bar>x\<bar>"
  shows "round_double x = PosInf \<or> round_double x = NegInf
     \<or> (\<exists>y. round_double x = Finite y \<and> 2 \<le> \<bar>y\<bar>)"
proof -
  define a where "a = \<bar>x\<bar>"
  define k where "k = floor_log2 a"
  define e where "e = max (k - 52) (- 1074)"
  define m where "m = round_half_even (a / 2 powi e)"
  have x0: "x \<noteq> 0" using assms by auto
  have a2: "2 \<le> a" using assms by (simp add: a_def)
  then have apos: "0 < a" by simp
  have lo: "2 powi k \<le> a" and up: "a < 2 powi (k + 1)"
    unfolding k_def by (rule floor_log2_bounds [OF apos])+
  from a2 up have "(2::rat) powi 1 < 2 powi (k + 1)" by simp
  then have k1: "1 \<le> k" using pow2_mono [of "k + 1" 1] by (cases "1 \<le> k") auto
  then have e: "e = k - 52" by (simp add: e_def)
  have "(of_int (2 ^ 52) :: rat) = 2 powi k / 2 powi e"
    by (simp add: e power_int_diff [symmetric])
  also have "\<dots> \<le> a / 2 powi e" using lo by (simp add: divide_right_mono)
  finally have mge: "2 ^ 52 \<le> m" unfolding m_def by (rule round_half_even_ge)
  then have m0: "\<bar>of_int m :: rat\<bar> = of_int m" by simp
  from mge have "(of_int (2 ^ 52) :: rat) \<le> of_int m" by (simp only: of_int_le_iff)
  then have A: "of_int (2 ^ 52) * 2 powi e \<le> of_int m * (2::rat) powi e"
    by (intro mult_right_mono) simp_all
  have B: "of_int (2 ^ 52) * 2 powi e = (2::rat) powi k"
  proof -
    have "(2::rat) powi k = 2 powi (52 + e)" by (simp add: e)
    also have "\<dots> = 2 powi 52 * 2 powi e" by (rule pow2_add)
    finally show ?thesis by simp
  qed
  have "2 powi k \<le> of_int m * (2::rat) powi e" using A unfolding B .
  moreover have "(2::rat) powi 1 \<le> 2 powi k" using k1 by (rule pow2_mono)
  ultimately have y2: "2 \<le> of_int m * (2::rat) powi e" by simp
  show ?thesis
  proof (cases "(2::rat) powi 1024 \<le> of_int m * 2 powi e")
    case True
    have "round_double x = (if 0 < x then PosInf else NegInf)"
      using round_double_unfold [OF x0] True
      by (simp only: a_def [symmetric] k_def [symmetric] e_def [symmetric] m_def [symmetric] if_True)
    then show ?thesis by (cases "0 < x") simp_all
  next
    case False
    have "round_double x = Finite (sgn x * (of_int m * 2 powi e))"
      using round_double_unfold [OF x0] False
      by (simp only: a_def [symmetric] k_def [symmetric] e_def [symmetric] m_def [symmetric] if_False)
    moreover have "2 \<le> \<bar>sgn x * (of_int m * 2 powi e)\<bar>"
      using y2 x0 by (simp add: abs_mult m0)
    ultimately show ?thesis by blast
  qed
qed

lemma round_double_nonneg:
  assumes "0 \<le> x"
  shows "round_double x = PosInf \<or> (\<exists>y. round_double x = Finite y \<and> 0 \<le> y)"
proof (cases "x = 0")
  case True
  then show ?thesis by (simp add: round_double_def)
next
  case False
  define a where "a = \<bar>x\<bar>"
  define e where "e = max (floor_log2 a - 52) (- 1074)"
  define m where "m = round_half_even (a / 2 powi e)"
  from False assms have xpos: "0 < x" by simp
  have "0 \<le> m" unfolding m_def by (intro round_half_even_nonneg) (simp add: a_def)
  then have y0: "0 \<le> sgn x * (of_int m * (2::rat) powi e)" using xpos by simp
  have "round_double x = (if (2::rat) powi 1024 \<le> of_int m * 2 powi e
      then (if 0 < x then PosInf else NegInf) else Finite (sgn x * (of_int m * 2 powi e)))"
    using round_double_unfold [OF False]
    by (simp only: a_def [symmetric] e_def [symmetric] m_def [symmetric])
  with xpos y0 show ?thesis by (cases "(2::rat) powi 1024 \<le> of_int m * 2 powi e") simp_all
qed

lemma round_double_grid:
  assumes "round_double x = Finite y" "1 \<le> \<bar>y\<bar>"
  shows "\<exists>n::int. y = of_int n / 2 ^ 52"
proof -
  define a where "a = \<bar>x\<bar>"
  define k where "k = floor_log2 a"
  define e where "e = max (k - 52) (- 1074)"
  define m where "m = round_half_even (a / 2 powi e)"
  have x0: "x \<noteq> 0" using assms by (auto simp: round_double_def)
  then have apos: "0 < a" by (simp add: a_def)
  have u: "round_double x = (if (2::rat) powi 1024 \<le> of_int m * 2 powi e
      then (if 0 < x then PosInf else NegInf) else Finite (sgn x * (of_int m * 2 powi e)))"
    using round_double_unfold [OF x0]
    by (simp only: a_def [symmetric] k_def [symmetric] e_def [symmetric] m_def [symmetric])
  with assms(1) have y: "y = sgn x * (of_int m * 2 powi e)"
    by (cases "(2::rat) powi 1024 \<le> of_int m * 2 powi e") (simp_all split: if_splits)
  show ?thesis
  proof (cases "- 52 \<le> e")
    case True
    define s :: int where "s = (if 0 < x then 1 else - 1)"
    have sg: "sgn x = of_int s" using x0 by (simp add: s_def sgn_if)
    have "(2::rat) powi e = 2 powi (e + 52) / 2 ^ 52" by (simp add: power_int_add)
    also have "\<dots> = of_int (2 ^ nat (e + 52)) / 2 ^ 52"
      using True by (simp add: power_int_nonneg_exp)
    finally have "y = of_int (s * m * 2 ^ nat (e + 52)) / 2 ^ 52"
      by (simp add: y sg)
    then show ?thesis by blast
  next
    case False
    then have "k < 0" by (simp add: e_def)
    have "a < 2 powi (k + 1)" unfolding k_def by (rule floor_log2_bounds [OF apos])
    also have "\<dots> \<le> 2 powi 0" using \<open>k < 0\<close> by (intro pow2_mono) simp
    finally have "\<bar>x\<bar> \<le> 1" by (simp add: a_def)
    from round_double_le_1 [OF this] assms have "\<bar>y\<bar> = 1" by auto
    then have "y = of_int (2 ^ 52) / 2 ^ 52 \<or> y = of_int (- (2 ^ 52)) / 2 ^ 52"
      by (auto simp: abs_if split: if_splits)
    then show ?thesis by blast
  qed
qed

section \<open>Properties of the written-amount converter\<close>

text \<open>
  C5: the converter lowercases its input and returns the sum of the values of the
  vocabulary phrases found in it (1,000,000 for "one million", 200,000 for
  "two hundred thousand"); nothing else contributes. A phrase is found when it occurs
  as a contiguous piece of the lowercased text.
\<close>

theorem text_amount_to_number_additive:
  "text_amount_to_number s = additive_converter s
   \<and> text_amount_to_number s =
       (if (\<exists>xs ys. lower s = xs @ ''one million'' @ ys) then 1000000 else 0)
       + (if (\<exists>xs ys. lower s = xs @ ''two hundred thousand'' @ ys) then 200000 else 0)"
  unfolding text_amount_to_number_def additive_converter_def vocabulary_def Let_def
    contains_iff [symmetric]
  by simp

theorem text_amount_to_number_additive_witness:
  "text_amount_to_number ''One Million Two Hundred Thousand Dollars'' = 1200000
   \<and> additive_converter ''One Million Two Hundred Thousand Dollars'' = 1200000
   \<and> text_amount_to_number ''Fifty Thousand Dollars'' = 0"
proof -
  have a: "text_amount_to_number ''One Million Two Hundred Thousand Dollars'' = 1200000"
    by code_simp
  have b: "text_amount_to_number ''Fifty Thousand Dollars'' = 0"
    by code_simp
  from a b text_amount_to_number_additive [of "''One Million Two Hundred Thousand Dollars''"]
  show ?thesis by simp
qed

text \<open>
  C10: the converter returns one of 0, 200000, 1000000 and 1200000, hence a non-negative
  integer, and it is case-insensitive: a string and its lowercase form convert to the
  same value.
\<close>

theorem text_amount_to_number_range:
  "text_amount_to_number s \<in> {0, 200000, 1000000, 1200000}
   \<and> 0 \<le> text_amount_to_number s
   \<and> text_amount_to_number (lower s) = text_amount_to_number s"
  unfolding text_amount_to_number_def Let_def lower_idem
  by simp

section \<open>Properties of the county resolver\<close>

lemma extract_loop_Some:
  "extract_loop sc q (Some (c0, s0, i0)) i cs = Some (c, s, k) \<Longrightarrow>
     s = Max (insert s0 (sc q ` set cs)) \<and> ((c, s) = (c0, s0) \<or> (c \<in> set cs \<and> s = sc q c))"
proof (induction cs arbitrary: c0 s0 i0 i)
  case Nil
  then show ?case by simp
next
  case (Cons x xs)
  show ?case
  proof (cases "s0 < sc q x")
    case True
    with Cons.prems have "extract_loop sc q (Some (x, sc q x, i)) (i + 1) xs = Some (c, s, k)"
      by simp
    from Cons.IH [OF this]
    have m: "s = Max (insert (sc q x) (sc q ` set xs))"
      and w: "(c, s) = (x, sc q x) \<or> (c \<in> set xs \<and> s = sc q c)" by blast+
    have "Max (insert s0 (sc q ` set (x # xs))) = max s0 (Max (insert (sc q x) (sc q ` set xs)))"
      by simp
    also have "\<dots> = Max (insert (sc q x) (sc q ` set xs))"
      using True by (simp add: max_def) (meson Max_ge finite_imageI finite_insert finite_set insertI1 le_less_trans less_le_not_le order.trans linear)
    finally show ?thesis using m w by auto
  next
    case False
    with Cons.prems have "extract_loop sc q (Some (c0, s0, i0)) (i + 1) xs = Some (c, s, k)"
      by simp
    from Cons.IH [OF this]
    have m: "s = Max (insert s0 (sc q ` set xs))"
      and w: "(c, s) = (c0, s0) \<or> (c \<in> set xs \<and> s = sc q c)" by blast+
    have "Max (insert s0 (sc q ` set (x # xs))) = Max (insert (sc q x) (insert s0 (sc q ` set xs)))"
      by (simp add: insert_commute)
    also have "\<dots> = max (sc q x) (Max (insert s0 (sc q ` set xs)))"
      by simp
    also have "\<dots> = Max (insert s0 (sc q ` set xs))"
      using False by (simp add: max_def) (meson Max_ge finite_imageI finite_insert finite_set insertI1 not_less order.trans)
    finally show ?thesis using m w by auto
  qed
qed

lemma extract_loop_not_None:
  "extract_loop sc q (Some r) i cs \<noteq> None"
  by (induction cs arbitrary: r i) (auto simp: Let_def split: prod.splits)

lemma extractOne_Nil: "extractOne sc q [] = None"
  by (simp add: extractOne_def)

lemma extractOne_Cons:
  "extractOne sc q (x # xs) = extract_loop sc q (Some (x, sc q x, 0)) 1 xs"
  by (simp add: extractOne_def)

lemma extractOne_nonempty:
  assumes "cs \<noteq> []"
  shows "\<exists>c k. extractOne sc q cs = Some (c, Max (sc q ` set cs), k)
            \<and> c \<in> set cs \<and> sc q c = Max (sc q ` set cs)"
proof -
  from assms obtain x xs where cs: "cs = x # xs" by (cases cs) auto
  obtain c s k where r: "extract_loop sc q (Some (x, sc q x, 0)) 1 xs = Some (c, s, k)"
    using extract_loop_not_None [of sc q "(x, sc q x, 0)" 1 xs] by (cases "extract_loop sc q (Some (x, sc q x, 0)) 1 xs") auto
  from extract_loop_Some [OF r]
  have "s = Max (sc q ` set cs)" and "c \<in> set cs \<and> s = sc q c"
    by (auto simp: cs)
  with r show ?thesis by (auto simp: cs extractOne_Cons)
qed

text \<open>
  C3: the resolver fails with the unknown-county error exactly when the registry has a
  best score (it is not empty) and that score, the greatest score of the input against a
  registry name, is below 70; a name it returns is the name of a registry entry.
\<close>

theorem normalize_county_threshold:
  "(normalize_county sc inp counties = Inl (UnknownCounty inp)
      \<longleftrightarrow> counties \<noteq> [] \<and> Max ((\<lambda>c. sc inp (name c)) ` set counties) < 70)
   \<and> (\<forall>n. normalize_county sc inp counties = Inr n \<longrightarrow> n \<in> name ` set counties)"
proof (cases "counties = []")
  case True
  then show ?thesis by (simp add: normalize_county_def extractOne_Nil)
next
  case False
  then have ne: "map name counties \<noteq> []" by simp
  from extractOne_nonempty [OF ne, of sc inp]
  obtain c k where e: "extractOne sc inp (map name counties)
      = Some (c, Max (sc inp ` set (map name counties)), k)" and c: "c \<in> set (map name counties)"
    by blast
  have "sc inp ` set (map name counties) = (\<lambda>c. sc inp (name c)) ` set counties"
    by auto
  with e c False show ?thesis by (auto simp: normalize_county_def)
qed

theorem normalize_county_threshold_witness:
  "normalize_county exact_scorer ''S. Clara'' sample_counties = Inl (UnknownCounty ''S. Clara'')
   \<and> normalize_county exact_scorer ''San Mateo'' sample_counties = Inr ''San Mateo''
   \<and> ''San Mateo'' \<in> name ` set sample_counties"
proof -
  have a: "Max ((\<lambda>c. exact_scorer ''S. Clara'' (name c)) ` set sample_counties) < 70"
    by (simp add: exact_scorer_def sample_counties_def)
  have b: "normalize_county exact_scorer ''San Mateo'' sample_counties = Inr ''San Mateo''"
    by (simp add: normalize_county_def extractOne_def exact_scorer_def sample_counties_def)
  have c: "sample_counties \<noteq> []" by (simp add: sample_counties_def)
  from a b c normalize_county_threshold [of exact_scorer "''S. Clara''" sample_counties]
    normalize_county_threshold [of exact_scorer "''San Mateo''" sample_counties]
  show ?thesis by blast
qed

text \<open>
  C9: on a registry that is not empty the resolver either fails with the unknown-county
  error or returns the name of a registry entry; on the empty registry the best-match
  lookup returns nothing, unpacking it fails, and the failure is not the unknown-county
  error.
\<close>

theorem normalize_county_registry_nonempty:
  "(counties \<noteq> [] \<longrightarrow>
      normalize_county sc inp counties = Inl (UnknownCounty inp)
      \<or> (\<exists>c \<in> set counties. normalize_county sc inp counties = Inr (name c)))
   \<and> normalize_county sc inp [] = Inl UnpackNone
   \<and> normalize_county sc inp [] \<noteq> Inl (UnknownCounty inp)"
proof -
  have "normalize_county sc inp counties = Inl (UnknownCounty inp)
      \<or> (\<exists>c \<in> set counties. normalize_county sc inp counties = Inr (name c))"
    if "counties \<noteq> []"
  proof -
    from that have ne: "map name counties \<noteq> []" by simp
    from extractOne_nonempty [OF ne, of sc inp]
    obtain c k where e: "extractOne sc inp (map name counties)
        = Some (c, Max (sc inp ` set (map name counties)), k)" and c: "c \<in> set (map name counties)"
      by blast
    then show ?thesis by (auto simp: normalize_county_def)
  qed
  then show ?thesis by (simp add: normalize_county_def extractOne_Nil)
qed

theorem normalize_county_registry_nonempty_witness:
  "sample_counties \<noteq> []
   \<and> normalize_county exact_scorer ''San Mateo'' sample_counties = Inr ''San Mateo''
   \<and> normalize_county exact_scorer ''San Mateo'' [] = Inl UnpackNone"
proof -
  have b: "normalize_county exact_scorer ''San Mateo'' sample_counties = Inr ''San Mateo''"
    by (simp add: normalize_county_def extractOne_def exact_scorer_def sample_counties_def)
  have c: "sample_counties \<noteq> []" by (simp add: sample_counties_def)
  from b c normalize_county_registry_nonempty [of sample_counties exact_scorer "''San Mateo''"]
  show ?thesis by blast
qed







section \<open>Properties of the date order validator\<close>

lemma digit_char_digit: "k < 10 \<Longrightarrow> is_digit (digit_char k)"
  by (simp add: is_digit_def digit_char_def)

lemma digit_value_digit_char: "k < 10 \<Longrightarrow> digit_value (digit_char k) = k"
  by (simp add: digit_value_def digit_char_def)

lemma decimal_value_4:
  "decimal_value [a, b, c, d] =
     1000 * digit_value a + 100 * digit_value b + 10 * digit_value c + digit_value d"
  by (simp add: decimal_value_def)

lemma decimal_value_2: "decimal_value [a, b] = 10 * digit_value a + digit_value b"
  by (simp add: decimal_value_def)

lemma pad4_value:
  assumes "y < 10000"
  shows "1000 * (y div 1000) + 100 * (y div 100 mod 10) + 10 * (y div 10 mod 10) + y mod 10
     = (y::nat)"
proof -
  have a: "y = 10 * (y div 10) + y mod 10" by simp
  have b: "y div 10 = 10 * (y div 100) + y div 10 mod 10"
    using div_mult_mod_eq [of "y div 10" 10] by (simp add: div_mult2_eq [symmetric])
  have c: "y div 100 = 10 * (y div 1000) + y div 100 mod 10"
    using div_mult_mod_eq [of "y div 100" 10] by (simp add: div_mult2_eq [symmetric])
  from a b c show ?thesis by linarith
qed

lemma pad2_value:
  assumes "m < 100"
  shows "10 * (m div 10) + m mod 10 = (m::nat)"
  by simp

lemma days_in_month_le: "1 \<le> m \<Longrightarrow> m \<le> 12 \<Longrightarrow> days_in_month y m \<le> 31"
proof -
  assume "1 \<le> m" "m \<le> 12"
  then have "m \<in> {1, 2, 3, 4, 5, 6, 7, 8, 9, 10, 11, 12}" by simp arith
  then show ?thesis by (auto simp: days_in_month_def)
qed

lemma iso_date_isoformat:
  assumes "valid_date y m d"
  shows "iso_date (isoformat \<lparr>year = y, month = m, day = d\<rparr>) = Some (naive_datetime y m d 0 0)"
proof -
  from assms have y: "y < 10000" and m: "m < 100" "1 \<le> m" "m \<le> 12"
    by (simp_all add: valid_date_def)
  from assms days_in_month_le [OF m(2,3), of y] have d: "d < 100" by (simp add: valid_date_def)
  have dy: "y div 1000 < 10" "y div 100 mod 10 < 10" "y div 10 mod 10 < 10" "y mod 10 < 10"
    using y by simp_all
  have dm: "m div 10 < 10" "m mod 10 < 10" using m by simp_all
  have dd: "d div 10 < 10" "d mod 10 < 10" using d by simp_all
  let ?s = "isoformat \<lparr>year = y, month = m, day = d\<rparr>"
  have l: "length ?s = 10" "?s ! 4 = CHR ''-''" "?s ! 7 = CHR ''-''"
    by (simp_all add: isoformat_def)
  have t4: "take 4 ?s = [digit_char (y div 1000), digit_char (y div 100 mod 10),
      digit_char (y div 10 mod 10), digit_char (y mod 10)]"
    by (simp add: isoformat_def)
  have t2: "take 2 (drop 5 ?s) = [digit_char (m div 10), digit_char (m mod 10)]"
    by (simp add: isoformat_def)
  have t8: "drop 8 ?s = [digit_char (d div 10), digit_char (d mod 10)]"
    by (simp add: isoformat_def)
  have v4: "decimal_value (take 4 ?s) = y"
    unfolding t4 decimal_value_4 using dy pad4_value [OF y]
    by (simp add: digit_value_digit_char)
  have v2: "decimal_value (take 2 (drop 5 ?s)) = m"
    unfolding t2 decimal_value_2 using dm pad2_value [OF m(1)]
    by (simp add: digit_value_digit_char)
  have v8: "decimal_value (drop 8 ?s) = d"
    unfolding t8 decimal_value_2 using dd pad2_value [OF d]
    by (simp add: digit_value_digit_char)
  have g: "list_all is_digit (take 4 ?s)" "list_all is_digit (take 2 (drop 5 ?s))"
    "list_all is_digit (drop 8 ?s)"
    unfolding t4 t2 t8 using dy dm dd by (simp_all add: digit_char_digit)
  show ?thesis
    unfolding iso_date_def Let_def v4 v2 v8 using l g assms by simp
qed

lemma date_parse_isoformat:
  assumes "valid_date y m d"
  shows "date_parse other (isoformat \<lparr>year = y, month = m, day = d\<rparr>)
     = Some (naive_datetime y m d 0 0)"
  by (simp add: date_parse_def iso_date_isoformat [OF assms])

text \<open>
  C8: when the signed-date string or the recorded-date string does not parse, the
  validator fails with the parser's error, for the first string that does not parse,
  and it fails with that error in no other case. An ISO string YYYY-MM-DD of a date
  always parses, to that date, so that on two ISO dates the validator never fails with
  the parser's error: it decides by the order of the two dates.
\<close>

theorem validate_dates_parse_error:
  "(parse ds = None \<longrightarrow> validate_dates parse ds dr = Inl (ParserError ds))
   \<and> (parse ds \<noteq> None \<and> parse dr = None \<longrightarrow> validate_dates parse ds dr = Inl (ParserError dr))
   \<and> ((\<exists>s. validate_dates parse ds dr = Inl (ParserError s))
        \<longleftrightarrow> parse ds = None \<or> parse dr = None)
   \<and> (valid_date y m d \<longrightarrow>
        date_parse other (isoformat \<lparr>year = y, month = m, day = d\<rparr>)
          = Some (naive_datetime y m d 0 0))
   \<and> (valid_date y m d \<and> valid_date y' m' d' \<longrightarrow>
        validate_dates (date_parse other)
            (isoformat \<lparr>year = y, month = m, day = d\<rparr>)
            (isoformat \<lparr>year = y', month = m', day = d'\<rparr>)
          = (if lex_less [y', m', d'] [y, m, d]
             then Inl (InvalidDateOrder \<lparr>year = y', month = m', day = d'\<rparr>
                                        \<lparr>year = y, month = m, day = d\<rparr>)
             else Inr ()))"
proof (intro conjI impI)
  show "validate_dates parse ds dr = Inl (ParserError ds)" if "parse ds = None"
    using that by (simp add: validate_dates_def)
  show "validate_dates parse ds dr = Inl (ParserError dr)"
    if "parse ds \<noteq> None \<and> parse dr = None"
    using that by (auto simp: validate_dates_def)
  show "(\<exists>s. validate_dates parse ds dr = Inl (ParserError s))
        \<longleftrightarrow> parse ds = None \<or> parse dr = None"
    by (auto simp: validate_dates_def datetime_less_def split: option.splits sum.splits)
  show "date_parse other (isoformat \<lparr>year = y, month = m, day = d\<rparr>)
          = Some (naive_datetime y m d 0 0)" if "valid_date y m d"
    using that by (rule date_parse_isoformat)
  show "validate_dates (date_parse other)
            (isoformat \<lparr>year = y, month = m, day = d\<rparr>)
            (isoformat \<lparr>year = y', month = m', day = d'\<rparr>)
          = (if lex_less [y', m', d'] [y, m, d]
             then Inl (InvalidDateOrder \<lparr>year = y', month = m', day = d'\<rparr>
                                        \<lparr>year = y, month = m, day = d\<rparr>)
             else Inr ())"
    if "valid_date y m d \<and> valid_date y' m' d'"
    using that
    by (simp add: validate_dates_def date_parse_isoformat datetime_less_def
        naive_datetime_def datetime_fields_def date_of_def)
qed

theorem validate_dates_parse_error_witness:
  "date_parse sample_parse [] = None
   \<and> validate_dates (date_parse sample_parse) [] ''2024-01-15'' = Inl (ParserError [])
   \<and> date_parse sample_parse ''2024-01-10'' \<noteq> None
   \<and> date_parse sample_parse ''not a date'' = None
   \<and> validate_dates (date_parse sample_parse) ''2024-01-10'' ''not a date''
        = Inl (ParserError ''not a date'')
   \<and> valid_date 2024 1 10 \<and> valid_date 2024 1 15
   \<and> isoformat \<lparr>year = 2024, month = 1, day = 10\<rparr> = ''2024-01-10''
   \<and> isoformat \<lparr>year = 2024, month = 1, day = 15\<rparr> = ''2024-01-15''
   \<and> date_parse sample_parse ''2024-01-15'' = Some (naive_datetime 2024 1 15 0 0)
   \<and> validate_dates (date_parse sample_parse) ''2024-01-10'' ''2024-01-15'' = Inr ()"
proof -
  have a: "date_parse sample_parse [] = None"
    by (simp add: date_parse_def iso_date_def sample_parse_def)
  have c: "date_parse sample_parse ''not a date'' = None"
    by (simp add: date_parse_def iso_date_def sample_parse_def)
  have v: "valid_date 2024 1 10" "valid_date 2024 1 15"
    by (simp_all add: valid_date_def days_in_month_def is_leap_def)
  have i: "isoformat \<lparr>year = 2024, month = 1, day = 10\<rparr> = ''2024-01-10''"
    "isoformat \<lparr>year = 2024, month = 1, day = 15\<rparr> = ''2024-01-15''"
    by code_simp+
  note t = validate_dates_parse_error [of "date_parse sample_parse" _ _ 2024 1 10 sample_parse
      2024 1 15]
  from t [of "[]" "''2024-01-15''"] a
  have 1: "validate_dates (date_parse sample_parse) [] ''2024-01-15'' = Inl (ParserError [])"
    by blast
  from t v have p10: "date_parse sample_parse ''2024-01-10'' = Some (naive_datetime 2024 1 10 0 0)"
    unfolding i by blast
  from validate_dates_parse_error [of "date_parse sample_parse" _ _ 2024 1 15 sample_parse] v
  have p15: "date_parse sample_parse ''2024-01-15'' = Some (naive_datetime 2024 1 15 0 0)"
    unfolding i by blast
  from p10 have b: "date_parse sample_parse ''2024-01-10'' \<noteq> None" by simp
  from t [of "''2024-01-10''" "''not a date''"] b c
  have 2: "validate_dates (date_parse sample_parse) ''2024-01-10'' ''not a date''
        = Inl (ParserError ''not a date'')"
    by blast
  from t v have "validate_dates (date_parse sample_parse) ''2024-01-10'' ''2024-01-15''
      = (if lex_less [2024, 1, 15] [2024, 1, 10]
         then Inl (InvalidDateOrder \<lparr>year = 2024, month = 1, day = 15\<rparr>
                                    \<lparr>year = 2024, month = 1, day = 10\<rparr>)
         else Inr ())"
    unfolding i by blast
  then have 3: "validate_dates (date_parse sample_parse) ''2024-01-10'' ''2024-01-15'' = Inr ()"
    by simp
  from a c v i 1 2 3 b p15 show ?thesis by (simp only: simp_thms)
qed

text \<open>
  C1: the validator compares the parsed datetimes, time of day included. A deed signed
  at 10:00 and recorded at 09:00 of the same day is rejected, with an error that names
  the same calendar date twice. On dates alone the order is as stated: recorded on
  2024-01-10 and signed on 2024-01-15 is rejected, the reverse is accepted.
\<close>

theorem validate_dates_time_of_day:
  "validate_dates sample_parse ''2024-01-15 10:00'' ''2024-01-15 09:00''
     = Inl (InvalidDateOrder \<lparr>year = 2024, month = 1, day = 15\<rparr>
                             \<lparr>year = 2024, month = 1, day = 15\<rparr>)
   \<and> validate_dates sample_parse ''2024-01-15'' ''2024-01-10''
     = Inl (InvalidDateOrder \<lparr>year = 2024, month = 1, day = 10\<rparr>
                             \<lparr>year = 2024, month = 1, day = 15\<rparr>)
   \<and> validate_dates sample_parse ''2024-01-10'' ''2024-01-15'' = Inr ()"
  by (simp add: validate_dates_def sample_parse_def naive_datetime_def datetime_less_def
      datetime_fields_def date_of_def)

text \<open>On naive datetimes the validator decides by the order of all seven fields.\<close>

lemma validate_dates_naive:
  assumes "parse ds = Some signed" "parse dr = Some recorded"
    and "utcoffset signed = None" "utcoffset recorded = None"
  shows "validate_dates parse ds dr =
     (if lex_less (datetime_fields recorded) (datetime_fields signed)
      then Inl (InvalidDateOrder (date_of recorded) (date_of signed)) else Inr ())"
  using assms by (simp add: validate_dates_def datetime_less_def)

section \<open>Properties of the amount reconciler\<close>

lemma strip_sample: "strip_amount ''$1,250,000.00'' = ''1250000.00''"
  by (simp add: strip_amount_def is_digit_def)

lemma py_float_sample: "py_float ''1250000.00'' = Inr (Finite 1250000)"
proof -
  have "py_float ''1250000.00'' = Inr (round_double (of_int 1250000))"
    by (simp add: py_float_def is_digit_def decimal_value_def digit_value_def)
  also have "round_double (of_int 1250000) = Finite (of_int 1250000)"
    by (rule round_double_of_int) simp
  finally show ?thesis by simp
qed

lemma py_float_nonneg_arg:
  assumes "py_float s = Inr x"
  shows "\<exists>d. 0 \<le> d \<and> x = round_double d"
proof -
  have a: "0 \<le> (of_nat (decimal_value ip) :: rat)" for ip by simp
  have b: "0 \<le> (of_nat (decimal_value ip) + of_nat (decimal_value fp) / 10 ^ length fp :: rat)"
    for ip fp by simp
  from assms show ?thesis
    unfolding py_float_def Let_def
    by (auto split: list.splits if_splits intro: a b)
qed

lemma py_float_range:
  assumes "py_float s = Inr x"
  shows "x = PosInf
     \<or> (\<exists>r. x = Finite r \<and> 0 \<le> r \<and> (1 \<le> r \<longrightarrow> (\<exists>n::int. r = of_int n / 2 ^ 52)))"
proof -
  from py_float_nonneg_arg [OF assms] obtain d where d: "0 \<le> d" "x = round_double d" by blast
  from round_double_nonneg [OF d(1)] show ?thesis
  proof
    assume "round_double d = PosInf"
    then show ?thesis by (simp add: d)
  next
    assume "\<exists>y. round_double d = Finite y \<and> 0 \<le> y"
    then obtain y where y: "round_double d = Finite y" "0 \<le> y" by blast
    have "\<exists>n::int. y = of_int n / 2 ^ 52" if "1 \<le> y"
      using round_double_grid [OF y(1)] that y(2) by simp
    with y show ?thesis by (simp add: d)
  qed
qed

lemma int_to_float_small:
  assumes "\<bar>n\<bar> < 2 ^ 53"
  shows "int_to_float n = Inr (Finite (of_int n))"
  by (simp add: int_to_float_def round_double_of_int [OF assms])

lemma text_amount_values:
  "text_amount_to_number t \<in> {0, 200000, 1000000, 1200000}"
  unfolding text_amount_to_number_def Let_def by simp

lemma int_to_float_text_amount:
  "int_to_float (text_amount_to_number t) = Inr (Finite (of_int (text_amount_to_number t)))"
proof (rule int_to_float_small)
  from text_amount_values [of t] show "\<bar>text_amount_to_number t\<bar> < 2 ^ 53" by auto
qed

lemma tolerance_exact:
  assumes r0: "0 \<le> r"
    and grid: "1 \<le> r \<longrightarrow> (\<exists>n::int. r = of_int n / 2 ^ 52)"
    and tv: "tv \<in> {0, 200000, 1000000, 1200000 :: int}"
  shows "float_gt_int (fabs (round_double (r - of_int tv))) 1 \<longleftrightarrow> 1 < \<bar>r - of_int tv\<bar>"
proof -
  define z where "z = r - of_int tv"
  consider "\<bar>z\<bar> \<le> 1" | "2 \<le> \<bar>z\<bar>" | "1 < \<bar>z\<bar>" "\<bar>z\<bar> < 2" by linarith
  then have "float_gt_int (fabs (round_double z)) 1 \<longleftrightarrow> 1 < \<bar>z\<bar>"
  proof cases
    case 1
    from round_double_le_1 [OF 1] obtain y where "round_double z = Finite y" "\<bar>y\<bar> \<le> 1"
      by blast
    with 1 show ?thesis by simp
  next
    case 2
    from round_double_ge_2 [OF 2] 2 show ?thesis by auto
  next
    case 3
    have r1: "1 \<le> r"
    proof (rule ccontr)
      assume "\<not> 1 \<le> r"
      then have "r < 1" by simp
      with tv r0 3 show False by (auto simp: z_def abs_if split: if_splits)
    qed
    with grid obtain n :: int where n: "r = of_int n / 2 ^ 52" by blast
    define m where "m = n - tv * 2 ^ 52"
    have zm: "z = of_int m * 2 powi (- 52)"
      by (simp add: z_def n m_def power_int_minus_divide field_simps)
    then have "\<bar>z\<bar> = \<bar>of_int m\<bar> / 2 ^ 52"
      by (simp add: power_int_minus_divide abs_mult)
    with 3(2) have "\<bar>of_int m :: rat\<bar> < 2 ^ 53" by (simp add: field_simps)
    then have "(of_int \<bar>m\<bar> :: rat) < of_int (2 ^ 53)" by simp
    then have "\<bar>m\<bar> < 2 ^ 53" by (simp only: of_int_less_iff)
    from round_double_exact [OF zm this] have "round_double z = Finite z" by simp
    with 3 show ?thesis by simp
  qed
  then show ?thesis by (simp add: z_def)
qed

lemma is_digit_iff: "is_digit c \<longleftrightarrow> c \<in> set ''0123456789''"
proof
  assume "c \<in> set ''0123456789''"
  then show "is_digit c" by (auto simp: is_digit_def)
next
  assume d: "is_digit c"
  define n where "n = (of_char c :: nat)"
  from d have "n \<in> {48, 49, 50, 51, 52, 53, 54, 55, 56, 57}"
    unfolding is_digit_def n_def [symmetric] by simp arith
  moreover have "c = char_of n" by (simp add: n_def)
  ultimately have "c \<in> char_of ` {48, 49, 50, 51, 52, 53, 54, 55, 56, 57 :: nat}" by blast
  also have "char_of ` {48, 49, 50, 51, 52, 53, 54, 55, 56, 57 :: nat} = set ''0123456789''"
    by code_simp
  finally show "c \<in> set ''0123456789''" .
qed
lemma validate_money_cases:
  assumes "py_float (strip_amount a) = Inr x"
  shows "validate_money a t =
     (if float_gt_int (fabs (fsub x (Finite (of_int (text_amount_to_number t))))) 1
      then Inl (MoneyMismatch x (text_amount_to_number t)) else Inr ())"
  by (simp add: validate_money_def assms int_to_float_text_amount Let_def)

lemma validate_money_sample:
  "validate_money ''$1,250,000.00'' ''One Million Two Hundred Thousand Dollars''
     = Inl (MoneyMismatch (Finite 1250000) 1200000)"
proof -
  have t: "text_amount_to_number ''One Million Two Hundred Thousand Dollars'' = 1200000"
    by code_simp
  have p: "py_float (strip_amount ''$1,250,000.00'') = Inr (Finite 1250000)"
    by (simp only: strip_sample py_float_sample)
  have "round_double (1250000 - 1200000) = Finite (of_int 50000)"
    using round_double_of_int [of 50000] by simp
  then show ?thesis
    by (simp add: validate_money_cases [OF p] t)
qed

text \<open>
  C2: when the numeric amount yields a float, the reconciler fails exactly when the
  absolute difference between that float and the value of the written amount is
  greater than 1 (an infinite float differs from every value by more than 1), the
  failure is the money mismatch carrying both values, and there is no other failure.
  The floating-point subtraction does not blur the test: the rounded difference is
  above 1 exactly when the exact difference is. Reconciling "$1,250,000.00" against
  "One Million Two Hundred Thousand Dollars" fails with the values 1250000 and
  1200000.
\<close>

theorem validate_money_mismatch:
  assumes "py_float (strip_amount a) = Inr x"
  shows "(validate_money a t = Inl (MoneyMismatch x (text_amount_to_number t))
            \<longleftrightarrow> x = PosInf \<or> (\<exists>r. x = Finite r \<and> 1 < \<bar>r - of_int (text_amount_to_number t)\<bar>))
     \<and> (validate_money a t = Inr ()
            \<longleftrightarrow> (\<exists>r. x = Finite r \<and> \<bar>r - of_int (text_amount_to_number t)\<bar> \<le> 1))
     \<and> (\<forall>e. validate_money a t = Inl e \<longrightarrow> e = MoneyMismatch x (text_amount_to_number t))
     \<and> validate_money ''$1,250,000.00'' ''One Million Two Hundred Thousand Dollars''
           = Inl (MoneyMismatch (Finite 1250000) 1200000)"
proof -
  let ?tv = "text_amount_to_number t"
  note c = validate_money_cases [OF assms, of t]
  from py_float_range [OF assms] show ?thesis
  proof
    assume "x = PosInf"
    with c show ?thesis by (simp add: validate_money_sample)
  next
    assume "\<exists>r. x = Finite r \<and> 0 \<le> r \<and> (1 \<le> r \<longrightarrow> (\<exists>n::int. r = of_int n / 2 ^ 52))"
    then obtain r where r: "x = Finite r" "0 \<le> r" "1 \<le> r \<longrightarrow> (\<exists>n::int. r = of_int n / 2 ^ 52)"
      by blast
    from tolerance_exact [OF r(2) r(3) text_amount_values [of t]]
    have "float_gt_int (fabs (fsub x (Finite (of_int ?tv)))) 1 \<longleftrightarrow> 1 < \<bar>r - of_int ?tv\<bar>"
      by (simp add: r(1))
    with c r(1) show ?thesis by (auto simp: validate_money_sample)
  qed
qed

lemma py_float_sample_half: "py_float ''1200000.50'' = Inr (Finite (2400001 / 2))"
proof -
  have "py_float ''1200000.50'' = Inr (round_double (2400001 / 2))"
    by (simp add: py_float_def is_digit_def decimal_value_def digit_value_def)
  also have "round_double (2400001 / 2) = Finite (2400001 / 2)"
    using round_double_exact [of "2400001 / 2" 2400001 "- 1"] by simp
  finally show ?thesis .
qed

theorem validate_money_mismatch_witness:
  "py_float (strip_amount ''$1,200,000.50'') = Inr (Finite (2400001 / 2))
   \<and> validate_money ''$1,200,000.50'' ''One Million Two Hundred Thousand Dollars'' = Inr ()"
proof -
  have s: "strip_amount ''$1,200,000.50'' = ''1200000.50''"
    by (simp add: strip_amount_def is_digit_def)
  have p: "py_float (strip_amount ''$1,200,000.50'') = Inr (Finite (2400001 / 2))"
    by (simp only: s py_float_sample_half)
  have t: "text_amount_to_number ''One Million Two Hundred Thousand Dollars'' = 1200000"
    by code_simp
  have "\<exists>r. Finite (2400001 / 2) = Finite r
      \<and> \<bar>r - of_int (text_amount_to_number ''One Million Two Hundred Thousand Dollars'')\<bar> \<le> 1"
    by (intro exI [of _ "2400001 / 2"]) (simp add: t)
  with validate_money_mismatch [OF p, of "''One Million Two Hundred Thousand Dollars''"] p
  show ?thesis by blast
qed

lemma strip_amount_charset:
  "strip_amount a = filter (\<lambda>c. c \<in> set ''0123456789.'') a"
proof -
  have "(is_digit c \<or> c = CHR ''.'') \<longleftrightarrow> c \<in> set ''0123456789.''" for c
    by (auto simp: is_digit_iff)
  then show ?thesis by (simp add: strip_amount_def)
qed

lemma decimal_value_snoc:
  "decimal_value (ds @ [c]) = 10 * decimal_value ds + digit_value c"
  by (simp add: decimal_value_def)

lemma not_digit_point: "\<not> is_digit CHR ''.''"
  by (simp add: is_digit_def)

lemma py_float_no_digits:
  assumes "\<forall>c \<in> set s. \<not> is_digit c"
  shows "py_float s = Inl (FloatValueError s)"
proof (cases s)
  case Nil
  then show ?thesis by (simp add: py_float_def)
next
  case (Cons c fp)
  with assms have c: "\<not> is_digit c" and fp: "list_all is_digit fp \<longleftrightarrow> fp = []"
    by (auto simp: list_all_iff neq_Nil_conv)
  then show ?thesis by (auto simp: py_float_def Cons)
qed

lemma py_float_integer:
  assumes "list_all is_digit ip" "ip \<noteq> []"
  shows "py_float ip = Inr (round_double (of_nat (decimal_value ip)))"
proof -
  from assms(1) have t: "takeWhile is_digit ip = ip" and d: "dropWhile is_digit ip = []"
    by (simp_all add: list_all_iff)
  show ?thesis unfolding py_float_def Let_def t d using assms(2) by simp
qed

lemma py_float_decimal:
  assumes "list_all is_digit ip" "list_all is_digit fp" "ip \<noteq> [] \<or> fp \<noteq> []"
  shows "py_float (ip @ ''.'' @ fp) =
     Inr (round_double (of_nat (decimal_value ip) + of_nat (decimal_value fp) / 10 ^ length fp))"
proof -
  from assms(1) have t: "takeWhile is_digit (ip @ CHR ''.'' # fp) = ip"
    by (simp add: list_all_iff takeWhile_tail not_digit_point)
  from assms(1) have d: "dropWhile is_digit (ip @ CHR ''.'' # fp) = CHR ''.'' # fp"
    by (simp add: list_all_iff not_digit_point)
  show ?thesis unfolding py_float_def Let_def append_Cons append_Nil t d
    using assms(2,3) by auto
qed

text \<open>
  C7: the numeric value of the amount field is read from the field with every character
  removed that is not a digit or a point: digits alone give the float nearest to their
  decimal value, digits with one point in them the float nearest to the decimal
  fraction, and that float is the value the reconciler compares. When no digit
  remains, the reconciler fails with the error of the conversion to float.
\<close>

theorem validate_money_numeric_value:
  "strip_amount a = filter (\<lambda>c. c \<in> set ''0123456789.'') a
   \<and> ((\<forall>c \<in> set (strip_amount a). \<not> is_digit c)
        \<longrightarrow> validate_money a t = Inl (FloatValueError (strip_amount a)))
   \<and> (\<forall>ip. strip_amount a = ip \<and> list_all is_digit ip \<and> ip \<noteq> []
        \<longrightarrow> py_float (strip_amount a) = Inr (round_double (of_nat (decimal_value ip))))
   \<and> (\<forall>ip fp. strip_amount a = ip @ ''.'' @ fp \<and> list_all is_digit ip \<and> list_all is_digit fp
          \<and> (ip \<noteq> [] \<or> fp \<noteq> [])
        \<longrightarrow> py_float (strip_amount a) =
            Inr (round_double
                  (of_nat (decimal_value ip) + of_nat (decimal_value fp) / 10 ^ length fp)))
   \<and> (\<forall>e. py_float (strip_amount a) = Inl e \<longrightarrow> validate_money a t = Inl e)
   \<and> (\<forall>x. py_float (strip_amount a) = Inr x \<longrightarrow>
         validate_money a t =
           (if float_gt_int (fabs (fsub x (Finite (of_int (text_amount_to_number t))))) 1
            then Inl (MoneyMismatch x (text_amount_to_number t)) else Inr ()))"
proof (intro conjI allI impI)
  show "strip_amount a = filter (\<lambda>c. c \<in> set ''0123456789.'') a"
    by (rule strip_amount_charset)
next
  assume "\<forall>c \<in> set (strip_amount a). \<not> is_digit c"
  then show "validate_money a t = Inl (FloatValueError (strip_amount a))"
    by (simp add: validate_money_def py_float_no_digits)
next
  fix ip
  assume "strip_amount a = ip \<and> list_all is_digit ip \<and> ip \<noteq> []"
  then show "py_float (strip_amount a) = Inr (round_double (of_nat (decimal_value ip)))"
    by (simp add: py_float_integer)
next
  fix ip fp
  assume "strip_amount a = ip @ ''.'' @ fp \<and> list_all is_digit ip \<and> list_all is_digit fp
          \<and> (ip \<noteq> [] \<or> fp \<noteq> [])"
  then show "py_float (strip_amount a) =
            Inr (round_double
                  (of_nat (decimal_value ip) + of_nat (decimal_value fp) / 10 ^ length fp))"
    using py_float_decimal [of ip fp] by simp
next
  fix e
  assume "py_float (strip_amount a) = Inl e"
  then show "validate_money a t = Inl e" by (simp add: validate_money_def)
next
  fix x
  assume "py_float (strip_amount a) = Inr x"
  then show "validate_money a t =
           (if float_gt_int (fabs (fsub x (Finite (of_int (text_amount_to_number t))))) 1
            then Inl (MoneyMismatch x (text_amount_to_number t)) else Inr ())"
    by (rule validate_money_cases)
qed

theorem validate_money_numeric_value_witness:
  "strip_amount ''N/A'' = []
   \<and> validate_money ''N/A'' ''One Million Dollars'' = Inl (FloatValueError [])
   \<and> strip_amount ''USD .'' = ''.''
   \<and> validate_money ''USD .'' ''One Million Dollars'' = Inl (FloatValueError ''.'')
   \<and> strip_amount ''$1,250,000.00'' = ''1250000'' @ ''.'' @ ''00''
   \<and> py_float (strip_amount ''$1,250,000.00'')
        = Inr (round_double (of_nat (decimal_value ''1250000'')
                + of_nat (decimal_value ''00'') / 10 ^ length ''00''))
   \<and> py_float (strip_amount ''$1,250,000.00'') = Inr (Finite 1250000)"
proof -
  have 1: "strip_amount ''N/A'' = []" by (simp add: strip_amount_def is_digit_def)
  have 2: "strip_amount ''USD .'' = ''.''" by (simp add: strip_amount_def is_digit_def)
  have 3: "strip_amount ''$1,250,000.00'' = ''1250000'' @ ''.'' @ ''00''"
    by (simp add: strip_amount_def is_digit_def)
  have 4: "list_all is_digit ''1250000''" "list_all is_digit ''00''"
    by (simp_all add: is_digit_def)
  have n1: "\<forall>c \<in> set (strip_amount ''N/A''). \<not> is_digit c" by (simp add: 1)
  have n2: "\<forall>c \<in> set (strip_amount ''USD .''). \<not> is_digit c"
    by (simp add: 2 not_digit_point)
  have a: "validate_money ''N/A'' ''One Million Dollars'' = Inl (FloatValueError [])"
    using validate_money_numeric_value [of "''N/A''" "''One Million Dollars''"] n1
    unfolding 1 by blast
  have b: "validate_money ''USD .'' ''One Million Dollars'' = Inl (FloatValueError ''.'')"
    using validate_money_numeric_value [of "''USD .''" "''One Million Dollars''"] n2
    unfolding 2 by blast
  have c: "py_float (strip_amount ''$1,250,000.00'')
        = Inr (round_double (of_nat (decimal_value ''1250000'')
                + of_nat (decimal_value ''00'') / 10 ^ length ''00''))"
    using validate_money_numeric_value [of "''$1,250,000.00''" "''One Million Dollars''"] 3 4
    by blast
  have d: "py_float (strip_amount ''$1,250,000.00'') = Inr (Finite 1250000)"
    by (simp only: strip_sample py_float_sample)
  from 1 2 3 a b c d show ?thesis by (simp only: simp_thms)
qed

section \<open>Properties of the tax calculation\<close>

lemma calculate_tax_cases:
  "calculate_tax a r =
     (case py_float (strip_amount a) of Inl e \<Rightarrow> Inl e | Inr x \<Rightarrow> Inr (fmul x r))"
  by (simp add: calculate_tax_def)

lemma process_deed_Inr:
  assumes "process_deed sc parse d counties = Inr res"
  shows "\<exists>c. normalize_county sc (county d) counties = Inr (name c)
      \<and> find (\<lambda>c'. name c' = name c) counties = Some c
      \<and> calculate_tax (amount_numeric d) (tax_rate c) = Inr (tax_due res)
      \<and> normalized_county res = name c \<and> county_tax_rate res = tax_rate c"
proof -
  from assms obtain nc where nc: "normalize_county sc (county d) counties = Inr nc"
    by (auto simp: process_deed_def split: sum.splits)
  from assms nc obtain c where c: "find (\<lambda>c'. name c' = nc) counties = Some c"
    by (auto simp: process_deed_def split: sum.splits option.splits)
  then have n: "name c = nc" by (auto simp: find_Some_iff)
  from assms nc c obtain due where
    due: "calculate_tax (amount_numeric d) (tax_rate c) = Inr due"
    and res: "res = \<lparr>normalized_county = nc, county_tax_rate = tax_rate c, tax_due = due\<rparr>"
    by (auto simp: process_deed_def split: sum.splits)
  from nc c due res n show ?thesis by auto
qed

lemma process_deed_amount_text:
  assumes "process_deed sc parse d counties = Inr res"
    and "process_deed sc parse (d\<lparr>amount_text := t'\<rparr>) counties = Inr res'"
  shows "res' = res"
  using assms by (auto simp: process_deed_def split: sum.splits option.splits)

lemma py_float_tax_sample: "py_float (strip_amount ''1250000.00'') = Inr (Finite 1250000)"
proof -
  have "strip_amount ''1250000.00'' = ''1250000.00''"
    by (simp add: strip_amount_def is_digit_def)
  then show ?thesis by (simp only: py_float_sample)
qed

text \<open>
  C4: the tax is the float product of the numeric amount, read from the numeric amount
  field, and the tax rate. In a run that succeeds, the tax due is that product for the
  numeric field of the deed and the rate of the resolved county, and a different
  written amount never changes the result of a run that still succeeds. The amount
  1250000.00 at the rate 0.01 (the float nearest to 1/100) gives exactly 12500.
\<close>

theorem calculate_tax_product:
  "(\<forall>x. py_float (strip_amount a) = Inr x \<longrightarrow> calculate_tax a r = Inr (fmul x r))
   \<and> (\<forall>e. py_float (strip_amount a) = Inl e \<longrightarrow> calculate_tax a r = Inl e)
   \<and> (\<forall>res. process_deed sc parse d counties = Inr res \<longrightarrow>
         calculate_tax (amount_numeric d) (county_tax_rate res) = Inr (tax_due res)
         \<and> (\<exists>c \<in> set counties. name c = normalized_county res \<and> tax_rate c = county_tax_rate res)
         \<and> (\<forall>t' res'. process_deed sc parse (d\<lparr>amount_text := t'\<rparr>) counties = Inr res'
               \<longrightarrow> res' = res))
   \<and> round_double (1 / 100) = one_percent
   \<and> calculate_tax ''1250000.00'' one_percent = Inr (Finite 12500)"
proof (intro conjI allI impI)
  fix x assume "py_float (strip_amount a) = Inr x"
  then show "calculate_tax a r = Inr (fmul x r)" by (simp add: calculate_tax_cases)
next
  fix e assume "py_float (strip_amount a) = Inl e"
  then show "calculate_tax a r = Inl e" by (simp add: calculate_tax_cases)
next
  fix res assume "process_deed sc parse d counties = Inr res"
  from process_deed_Inr [OF this]
  show "calculate_tax (amount_numeric d) (county_tax_rate res) = Inr (tax_due res)" by auto
next
  fix res assume "process_deed sc parse d counties = Inr res"
  from process_deed_Inr [OF this]
  show "\<exists>c \<in> set counties. name c = normalized_county res \<and> tax_rate c = county_tax_rate res"
    by (auto simp: find_Some_iff)
next
  fix res t' res'
  assume "process_deed sc parse d counties = Inr res"
    and "process_deed sc parse (d\<lparr>amount_text := t'\<rparr>) counties = Inr res'"
  then show "res' = res" by (rule process_deed_amount_text)
next
  show "round_double (1 / 100) = one_percent"
    by (simp only: double_one_hundredth one_percent_def)
next
  have "fmul (Finite 1250000) one_percent = Finite 12500"
    unfolding one_percent_def fmul.simps by (rule double_tax_example)
  then show "calculate_tax ''1250000.00'' one_percent = Inr (Finite 12500)"
    by (simp only: calculate_tax_cases py_float_tax_sample sum.case)
qed

lemma double_tax_sample:
  "round_double (1200000 * (5764607523034235 / 2 ^ 59)) = Finite 12000"
  using round_double_eqI [of "1200000 * (5764607523034235 / 2 ^ 59)" "- 39" 6597069766656000]
  by (simp add: power_int_minus_divide)

lemma py_float_deed_sample: "py_float (strip_amount ''$1,200,000.00'') = Inr (Finite 1200000)"
proof -
  have "strip_amount ''$1,200,000.00'' = ''1200000.00''"
    by (simp add: strip_amount_def is_digit_def)
  moreover have "py_float ''1200000.00'' = Inr (round_double (of_int 1200000))"
    by (simp add: py_float_def is_digit_def decimal_value_def digit_value_def)
  moreover have "round_double (of_int 1200000) = Finite (of_int 1200000)"
    by (rule round_double_of_int) simp
  ultimately show ?thesis by simp
qed

lemma process_deed_sample:
  "process_deed exact_scorer sample_parse sample_deed sample_counties
     = Inr \<lparr>normalized_county = ''Santa Clara'', county_tax_rate = one_percent,
            tax_due = Finite 12000\<rparr>"
proof -
  have n: "normalize_county exact_scorer ''Santa Clara'' sample_counties = Inr ''Santa Clara''"
    by (simp add: normalize_county_def extractOne_def exact_scorer_def sample_counties_def)
  have f: "find (\<lambda>c. name c = ''Santa Clara'') sample_counties
      = Some \<lparr>name = ''Santa Clara'', tax_rate = one_percent\<rparr>"
    by (simp add: sample_counties_def)
  have d: "validate_dates sample_parse ''2024-01-10'' ''2024-01-15'' = Inr ()"
    by (simp add: validate_dates_def sample_parse_def naive_datetime_def datetime_less_def
        datetime_fields_def)
  have t: "text_amount_to_number ''One Million Two Hundred Thousand Dollars'' = 1200000"
    by code_simp
  have m: "validate_money ''$1,200,000.00'' ''One Million Two Hundred Thousand Dollars'' = Inr ()"
    by (simp add: validate_money_cases [OF py_float_deed_sample] t round_double_def)
  have "fmul (Finite 1200000) one_percent = Finite 12000"
    unfolding one_percent_def fmul.simps by (rule double_tax_sample)
  then have c: "calculate_tax ''$1,200,000.00'' one_percent = Inr (Finite 12000)"
    by (simp only: calculate_tax_cases py_float_deed_sample sum.case)
  show ?thesis
    by (simp add: process_deed_def sample_deed_def n f d m c)
qed

theorem calculate_tax_product_witness:
  "process_deed exact_scorer sample_parse sample_deed sample_counties
     = Inr \<lparr>normalized_county = ''Santa Clara'', county_tax_rate = one_percent,
            tax_due = Finite 12000\<rparr>
   \<and> py_float (strip_amount ''$1,200,000.00'') = Inr (Finite 1200000)
   \<and> calculate_tax ''$1,200,000.00'' one_percent = Inr (fmul (Finite 1200000) one_percent)
   \<and> calculate_tax (amount_numeric sample_deed) one_percent = Inr (Finite 12000)"
proof -
  let ?res = "\<lparr>normalized_county = ''Santa Clara'', county_tax_rate = one_percent,
            tax_due = Finite 12000\<rparr>"
  from calculate_tax_product [of "''$1,200,000.00''" one_percent] py_float_deed_sample
  have a: "calculate_tax ''$1,200,000.00'' one_percent = Inr (fmul (Finite 1200000) one_percent)"
    by blast
  from calculate_tax_product [of _ _ exact_scorer sample_parse sample_deed sample_counties]
    process_deed_sample
  have "calculate_tax (amount_numeric sample_deed) (county_tax_rate ?res) = Inr (tax_due ?res)"
    by blast
  then have b: "calculate_tax (amount_numeric sample_deed) one_percent = Inr (Finite 12000)"
    by simp
  from a b process_deed_sample py_float_deed_sample show ?thesis by (simp only: simp_thms)
qed

end
